theory Spec2Isabelle
  imports Main "HOL-Library.AList"
begin

section \<open>Python values, errors and dictionaries\<close>

text \<open>
  The program is a Python script that works on the value returned by \<^verbatim>\<open>json.load\<close>.
  Such a value is a tree of dictionaries, lists, strings, numbers, booleans and
  \<^verbatim>\<open>None\<close>. A dictionary is an association list in insertion order. A float is kept
  as the text Python prints for it, which is all \<^verbatim>\<open>json.dumps\<close> needs. A string is a
  list of characters with code points below 256.
\<close>

datatype json =
    JNull
  | JBool bool
  | JInt int
  | JFloat string
  | JStr string
  | JArr "json list"
  | JObj "(string \<times> json) list"

text \<open>
  Every exception the script can raise is a value. \<open>Stopped e\<close> is the script halted
  by \<^verbatim>\<open>st.stop()\<close> after \<^verbatim>\<open>st.error(e)\<close> has shown \<open>e\<close>.
\<close>

datatype error =
    KeyError string
  | AttributeError string
  | TypeError string
  | ZeroDivisionError
  | Exception string
  | Stopped error

definition ebind :: "error + 'a \<Rightarrow> ('a \<Rightarrow> error + 'b) \<Rightarrow> error + 'b" where
  "ebind m f = (case m of Inl e \<Rightarrow> Inl e | Inr x \<Rightarrow> f x)"

text \<open>A \<^verbatim>\<open>for\<close> loop over a list whose body updates a state and may raise.\<close>

fun efold :: "('a \<Rightarrow> 's \<Rightarrow> error + 's) \<Rightarrow> 'a list \<Rightarrow> 's \<Rightarrow> error + 's" where
  "efold f [] s = Inr s"
| "efold f (x # xs) s = ebind (f x s) (efold f xs)"

lemma ebind_Inl [simp]: "ebind (Inl e) f = Inl e"
  by (simp add: ebind_def)

lemma ebind_Inr [simp]: "ebind (Inr x) f = f x"
  by (simp add: ebind_def)

lemma ebind_eq_Inr: "ebind m f = Inr y \<longleftrightarrow> (\<exists>x. m = Inr x \<and> f x = Inr y)"
  by (cases m) auto

text \<open>\<^verbatim>\<open>x.get(key, default)\<close>; \<^verbatim>\<open>x.get(key)\<close> is the call with default \<open>JNull\<close>.\<close>

definition py_get :: "json \<Rightarrow> string \<Rightarrow> json \<Rightarrow> error + json" where
  "py_get x key dflt =
     (case x of
        JObj d \<Rightarrow> Inr (case map_of d key of None \<Rightarrow> dflt | Some v \<Rightarrow> v)
      | _ \<Rightarrow> Inl (AttributeError ''get''))"

text \<open>\<^verbatim>\<open>x[key]\<close> for a string key.\<close>

definition py_index :: "json \<Rightarrow> string \<Rightarrow> error + json" where
  "py_index x key =
     (case x of
        JObj d \<Rightarrow> (case map_of d key of None \<Rightarrow> Inl (KeyError key) | Some v \<Rightarrow> Inr v)
      | JArr _ \<Rightarrow> Inl (TypeError ''list indices must be integers or slices, not str'')
      | JStr _ \<Rightarrow> Inl (TypeError ''string indices must be integers, not str'')
      | _ \<Rightarrow> Inl (TypeError ''object is not subscriptable''))"

definition py_values :: "json \<Rightarrow> error + json list" where
  "py_values x = (case x of JObj d \<Rightarrow> Inr (map snd d) | _ \<Rightarrow> Inl (AttributeError ''values''))"

definition py_items :: "json \<Rightarrow> error + (string \<times> json) list" where
  "py_items x = (case x of JObj d \<Rightarrow> Inr d | _ \<Rightarrow> Inl (AttributeError ''items''))"

text \<open>
  \<^verbatim>\<open>x[key] = v\<close>: an existing key keeps its place, a new key goes last.
\<close>

definition py_setitem :: "json \<Rightarrow> string \<Rightarrow> json \<Rightarrow> error + json" where
  "py_setitem x key v =
     (case x of
        JObj d \<Rightarrow> Inr (JObj (AList.update key v d))
      | JArr _ \<Rightarrow> Inl (TypeError ''list indices must be integers or slices, not str'')
      | _ \<Rightarrow> Inl (TypeError ''object does not support item assignment''))"

definition py_setdefault :: "json \<Rightarrow> string \<Rightarrow> json \<Rightarrow> error + json" where
  "py_setdefault x key dflt =
     (case x of
        JObj d \<Rightarrow> Inr (JObj (case map_of d key of None \<Rightarrow> d @ [(key, dflt)] | Some _ \<Rightarrow> d))
      | _ \<Rightarrow> Inl (AttributeError ''setdefault''))"

text \<open>Truth value of a JSON value in an \<^verbatim>\<open>if\<close>.\<close>

fun py_truthy :: "json \<Rightarrow> bool" where
  "py_truthy JNull = False"
| "py_truthy (JBool b) = b"
| "py_truthy (JInt i) = (i \<noteq> 0)"
| "py_truthy (JFloat r) = (r \<noteq> ''0.0'' \<and> r \<noteq> ''-0.0'')"
| "py_truthy (JStr s) = (s \<noteq> [])"
| "py_truthy (JArr xs) = (xs \<noteq> [])"
| "py_truthy (JObj d) = (d \<noteq> [])"

text \<open>\<^verbatim>\<open>x[0]\<close>. A dictionary made by \<^verbatim>\<open>json.load\<close> has string keys only.\<close>

fun py_first :: "json \<Rightarrow> error + json" where
  "py_first (JArr (x # xs)) = Inr x"
| "py_first (JArr []) = Inl (TypeError ''list index out of range'')"
| "py_first (JStr (c # cs)) = Inr (JStr [c])"
| "py_first (JStr []) = Inl (TypeError ''string index out of range'')"
| "py_first (JObj d) = Inl (KeyError ''0'')"
| "py_first _ = Inl (TypeError ''object is not subscriptable'')"

text \<open>Lists and dictionaries cannot be dictionary keys.\<close>

fun hashable :: "json \<Rightarrow> bool" where
  "hashable (JArr _) = False"
| "hashable (JObj _) = False"
| "hashable _ = True"

section \<open>Serialisation: \<^verbatim>\<open>json.dumps\<close>\<close>

definition hex_digit :: "nat \<Rightarrow> char" where
  "hex_digit n = (if n < 10 then char_of (48 + n) else char_of (87 + n))"

text \<open>
  With the default \<^verbatim>\<open>ensure_ascii=True\<close> every character outside the printable ASCII
  range, the double quote and the backslash are escaped.
\<close>

definition escape_char :: "char \<Rightarrow> string" where
  "escape_char c =
     (let n = (of_char c :: nat) in
      if c = CHR ''\"'' then [CHR 0x5C, CHR ''\"'']
      else if c = CHR 0x5C then [CHR 0x5C, CHR 0x5C]
      else if n = 10 then [CHR 0x5C, CHR ''n'']
      else if n = 13 then [CHR 0x5C, CHR ''r'']
      else if n = 9 then [CHR 0x5C, CHR ''t'']
      else if n = 8 then [CHR 0x5C, CHR ''b'']
      else if n = 12 then [CHR 0x5C, CHR ''f'']
      else if 32 \<le> n \<and> n \<le> 126 then [c]
      else [CHR 0x5C, CHR ''u'', CHR ''0'', CHR ''0'', hex_digit (n div 16), hex_digit (n mod 16)])"

definition encode_str :: "string \<Rightarrow> string" where
  "encode_str s = [CHR ''\"''] @ concat (map escape_char s) @ [CHR ''\"'']"

fun show_nat :: "nat \<Rightarrow> string" where
  "show_nat n = (if n < 10 then [char_of (48 + n)] else show_nat (n div 10) @ [char_of (48 + n mod 10)])"

declare show_nat.simps [simp del]

definition show_int :: "int \<Rightarrow> string" where
  "show_int i = (if i < 0 then CHR ''-'' # show_nat (nat (- i)) else show_nat (nat i))"

fun join :: "string \<Rightarrow> string list \<Rightarrow> string" where
  "join sep [] = []"
| "join sep [x] = x"
| "join sep (x # y # ys) = x @ sep @ join sep (y # ys)"

fun dumps :: "json \<Rightarrow> string" where
  "dumps JNull = ''null''"
| "dumps (JBool b) = (if b then ''true'' else ''false'')"
| "dumps (JInt i) = show_int i"
| "dumps (JFloat r) = r"
| "dumps (JStr s) = encode_str s"
| "dumps (JArr xs) = ''['' @ join '', '' (map dumps xs) @ '']''"
| "dumps (JObj d) =
     ''{'' @ join '', '' (map (\<lambda>kv. encode_str (fst kv) @ '': '' @ dumps (snd kv)) d) @ ''}''"

section \<open>The reference scan\<close>

definition ref_prefix :: string where
  "ref_prefix = ''#/components/schemas/''"

text \<open>
  The pattern is applied to the output of \<^verbatim>\<open>json.dumps\<close>, which is ASCII only, so
  \<^verbatim>\<open>\w\<close> matches exactly the letters, the digits and the underscore.
\<close>

definition word_chars :: string where
  "word_chars = ''abcdefghijklmnopqrstuvwxyzABCDEFGHIJKLMNOPQRSTUVWXYZ0123456789_''"

definition is_word_char :: "char \<Rightarrow> bool" where
  "is_word_char c \<longleftrightarrow> c \<in> set word_chars"

fun strip_prefix :: "string \<Rightarrow> string \<Rightarrow> string option" where
  "strip_prefix [] s = Some s"
| "strip_prefix (p # ps) [] = None"
| "strip_prefix (p # ps) (c # cs) = (if p = c then strip_prefix ps cs else None)"

lemma strip_prefix_Some: "strip_prefix p s = Some r \<longleftrightarrow> s = p @ r"
  by (induction p s rule: strip_prefix.induct) auto

function findall_refs :: "string \<Rightarrow> string list" where
  "findall_refs [] = []"
| "findall_refs (c # cs) =
     (case strip_prefix ref_prefix (c # cs) of
        None \<Rightarrow> findall_refs cs
      | Some rest \<Rightarrow>
          (if takeWhile is_word_char rest = [] then findall_refs cs
           else takeWhile is_word_char rest # findall_refs (dropWhile is_word_char rest)))"
  by pat_completeness auto
termination
proof (relation "measure length")
  fix c cs rest
  assume "strip_prefix ref_prefix (c # cs) = Some rest"
  then have "c # cs = ref_prefix @ rest"
    by (simp add: strip_prefix_Some)
  then have "length rest < length (c # cs)"
    by (simp add: ref_prefix_def)
  moreover have "length (dropWhile is_word_char rest) \<le> length rest"
    by (simp add: length_dropWhile_le)
  ultimately show "(dropWhile is_word_char rest, c # cs) \<in> measure length"
    by simp
qed simp_all

fun tails :: "'a list \<Rightarrow> 'a list list" where
  "tails [] = [[]]"
| "tails (x # xs) = (x # xs) # tails xs"

text \<open>
  What the pattern matches when it is anchored at the start of \<open>s\<close>: the longest run of
  word characters after the prefix, if the prefix is there and the run is not empty.
\<close>

definition refs_at :: "string \<Rightarrow> string list" where
  "refs_at s =
     (case strip_prefix ref_prefix s of
        None \<Rightarrow> []
      | Some rest \<Rightarrow>
          (if takeWhile is_word_char rest = [] then [] else [takeWhile is_word_char rest]))"

type_synonym schema_index = "(string \<times> string) list"

function add_missing_schemas :: "string \<Rightarrow> schema_index \<Rightarrow> string list \<Rightarrow> error + string list"
  and add_missing_loop :: "string list \<Rightarrow> schema_index \<Rightarrow> string list \<Rightarrow> error + string list" where
  "add_missing_schemas schema all_schemas schema_list =
     (case map_of all_schemas schema of
        None \<Rightarrow> Inl (KeyError schema)
      | Some body \<Rightarrow>
          (let matches = findall_refs body;
               new_matches = filter (\<lambda>m. m \<notin> set schema_list) matches
           in add_missing_loop new_matches all_schemas (schema_list @ new_matches)))"
| "add_missing_loop [] all_schemas schema_list = Inr schema_list"
| "add_missing_loop (m # ms) all_schemas schema_list =
     (case add_missing_schemas m all_schemas schema_list of
        Inl e \<Rightarrow> Inl e
      | Inr schema_list' \<Rightarrow> add_missing_loop ms all_schemas schema_list')"
  by pat_completeness auto

lemma add_missing_grows_partial:
  "add_missing_schemas_add_missing_loop_dom (Inl (schema, all_schemas, schema_list)) \<Longrightarrow>
     add_missing_schemas schema all_schemas schema_list = Inr r \<Longrightarrow> set schema_list \<subseteq> set r"
  "add_missing_schemas_add_missing_loop_dom (Inr (ms, all_schemas, schema_list)) \<Longrightarrow>
     add_missing_loop ms all_schemas schema_list = Inr r \<Longrightarrow> set schema_list \<subseteq> set r"
proof (induction schema all_schemas schema_list and ms all_schemas schema_list arbitrary: r and r
    rule: add_missing_schemas_add_missing_loop.pinduct)
  case (1 schema all_schemas schema_list)
  then show ?case
    by (auto simp: add_missing_schemas.psimps Let_def split: option.splits)
next
  case (2 all_schemas schema_list)
  then show ?case
    by (simp add: add_missing_loop.psimps)
next
  case (3 m ms all_schemas schema_list)
  from "3.prems" "3.hyps" obtain b where
    b: "add_missing_schemas m all_schemas schema_list = Inr b"
    and r: "add_missing_loop ms all_schemas b = Inr r"
    by (auto simp: add_missing_loop.psimps split: sum.splits)
  from "3.IH"(1)[OF b] "3.IH"(2)[OF b r] show ?case
    by blast
qed

definition closure_measure :: "(string \<times> schema_index \<times> string list) + (string list \<times> schema_index \<times> string list) \<Rightarrow> nat \<times> nat" where
  "closure_measure x =
     (case x of
        Inl (schema, all_schemas, schema_list) \<Rightarrow>
          (card (fst ` set all_schemas - set schema_list)
             + (if schema \<in> fst ` set all_schemas then 1 else 0), 0)
      | Inr (ms, all_schemas, schema_list) \<Rightarrow>
          (card (fst ` set all_schemas - set schema_list)
             + card (fst ` set all_schemas \<inter> set ms), Suc (length ms)))"

lemma card_unvisited_split:
  assumes "set new \<inter> set sl = {}"
  shows "card (fst ` set idx - set (sl @ new)) + card (fst ` set idx \<inter> set new)
           = card (fst ` set idx - set sl)"
proof -
  let ?U = "fst ` set idx"
  have fin: "finite ?U" by simp
  have "(?U - set (sl @ new)) \<union> (?U \<inter> set new) = ?U - set sl"
    using assms by auto
  moreover have "(?U - set (sl @ new)) \<inter> (?U \<inter> set new) = {}"
    by auto
  ultimately show ?thesis
    using card_Un_disjoint[of "?U - set (sl @ new)" "?U \<inter> set new"] fin
    by (metis finite_Diff finite_Int)
qed

lemma lex_le_less:
  "a \<le> a' \<Longrightarrow> b < b' \<Longrightarrow> ((a, b), (a', b')) \<in> less_than <*lex*> less_than"
  for a a' b b' :: nat
  by auto

text \<open>
  Every chain of nested calls of \<^verbatim>\<open>add_missing_schemas\<close> is finite, whatever the
  index (finite, as a dictionary is), the schema and the list: each expansion of a key
  adds it to the list, and the keys outside the list run out.
\<close>

lemma closure_terminates: "All add_missing_schemas_add_missing_loop_dom"
proof (relation "inv_image (less_than <*lex*> less_than) closure_measure")
  show "wf (inv_image (less_than <*lex*> less_than) closure_measure)"
    by (intro wf_inv_image wf_lex_prod wf_less_than)
next
  fix schema :: string and all_schemas :: schema_index and schema_list body matches new_matches
  assume look: "map_of all_schemas schema = Some body"
    and "matches = findall_refs body"
    and new: "new_matches = filter (\<lambda>m. m \<notin> set schema_list) matches"
  from look have key: "schema \<in> fst ` set all_schemas"
    by (metis domI dom_map_of_conv_image_fst)
  from new have "set new_matches \<inter> set schema_list = {}"
    by auto
  from card_unvisited_split[OF this, of all_schemas] key
  show "(Inr (new_matches, all_schemas, schema_list @ new_matches),
         Inl (schema, all_schemas, schema_list))
        \<in> inv_image (less_than <*lex*> less_than) closure_measure"
    by (simp add: closure_measure_def)
next
  fix m :: string and ms and all_schemas :: schema_index and schema_list :: "string list"
  have "(if m \<in> fst ` set all_schemas then 1 else 0)
          \<le> card (fst ` set all_schemas \<inter> set (m # ms))"
    by (auto simp: card_gt_0_iff Suc_le_eq)
  then show "(Inl (m, all_schemas, schema_list), Inr (m # ms, all_schemas, schema_list))
        \<in> inv_image (less_than <*lex*> less_than) closure_measure"
    unfolding closure_measure_def inv_image_def
    by (simp only: mem_Collect_eq prod.case sum.case) (rule lex_le_less; simp)
next
  fix m :: string and ms and all_schemas :: schema_index and schema_list b :: "string list"
  assume b: "add_missing_schemas m all_schemas schema_list = Inr b"
    and dom: "add_missing_schemas_add_missing_loop_dom (Inl (m, all_schemas, schema_list))"
  from add_missing_grows_partial(1)[OF dom b]
  have "fst ` set all_schemas - set b \<subseteq> fst ` set all_schemas - set schema_list"
    by auto
  then have c1: "card (fst ` set all_schemas - set b) \<le> card (fst ` set all_schemas - set schema_list)"
    by (simp add: card_mono)
  have c2: "card (fst ` set all_schemas \<inter> set ms) \<le> card (fst ` set all_schemas \<inter> set (m # ms))"
    by (rule card_mono) auto
  from c1 c2 show "(Inr (ms, all_schemas, b), Inr (m # ms, all_schemas, schema_list))
        \<in> inv_image (less_than <*lex*> less_than) closure_measure"
    unfolding closure_measure_def inv_image_def
    by (simp only: mem_Collect_eq prod.case sum.case) (rule lex_le_less; simp)
qed

termination add_missing_schemas
  by (rule closure_terminates)


declare add_missing_schemas.simps [simp del]




section \<open>Operations\<close>

record Operation =
  op_id :: json
  verb :: string
  path :: string
  summary :: json
  tag :: json
  schemas :: "string list"

definition get_key :: "Operation \<Rightarrow> string" where
  "get_key self = verb self @ ''-'' @ path self"

text \<open>
  \<^verbatim>\<open>set(xs)\<close> and \<^verbatim>\<open>list(set(xs))\<close> visit the distinct elements of \<open>xs\<close> in an
  order Python does not specify. The order is a parameter \<open>ord\<close> of every function that
  iterates over a set; \<open>set_order ord\<close> is all that is known about it.
\<close>

definition set_order :: "(string list \<Rightarrow> string list) \<Rightarrow> bool" where
  "set_order ord \<longleftrightarrow> (\<forall>xs. set (ord xs) = set xs \<and> distinct (ord xs))"

text \<open>\<^verbatim>\<open>s.replace("#/components/schemas/", "")\<close>\<close>

function remove_ref_prefix :: "string \<Rightarrow> string" where
  "remove_ref_prefix [] = []"
| "remove_ref_prefix (c # cs) =
     (case strip_prefix ref_prefix (c # cs) of
        None \<Rightarrow> c # remove_ref_prefix cs
      | Some rest \<Rightarrow> remove_ref_prefix rest)"
  by pat_completeness auto
termination
proof (relation "measure length")
  fix c cs rest
  assume "strip_prefix ref_prefix (c # cs) = Some rest"
  then have "c # cs = ref_prefix @ rest"
    by (simp add: strip_prefix_Some)
  then show "(rest, c # cs) \<in> measure length"
    by (simp add: ref_prefix_def)
qed simp_all

definition py_replace_ref_prefix :: "json \<Rightarrow> error + string" where
  "py_replace_ref_prefix x =
     (case x of JStr s \<Rightarrow> Inr (remove_ref_prefix s) | _ \<Rightarrow> Inl (AttributeError ''replace''))"

definition add_schema_from_media_type :: "json \<Rightarrow> string list \<Rightarrow> error + string list" where
  "add_schema_from_media_type response_type schema_list =
     ebind (py_get response_type ''schema'' (JObj [])) (\<lambda>schema_obj.
     ebind (py_get schema_obj ''$ref'' JNull) (\<lambda>schema.
       if schema \<noteq> JNull
       then ebind (py_replace_ref_prefix schema) (\<lambda>name. Inr (schema_list @ [name]))
       else Inr schema_list))"

definition add_schemas_from_operation :: "json \<Rightarrow> string list \<Rightarrow> error + string list" where
  "add_schemas_from_operation data schema_list =
     ebind (py_get data ''content'' JNull) (\<lambda>content.
       if content = JNull then Inr schema_list
       else ebind (py_values content) (\<lambda>response_types.
              efold add_schema_from_media_type response_types schema_list))"

text \<open>
  Lines 54 and 55: every distinct seed is expanded, all expansions extending the one
  list \<open>schemas\<close> that already holds the seeds.
\<close>

definition expand_seeds ::
  "(string list \<Rightarrow> string list) \<Rightarrow> schema_index \<Rightarrow> string list \<Rightarrow> error + string list" where
  "expand_seeds ord all_schemas seeds =
     efold (\<lambda>schema schema_list. add_missing_schemas schema all_schemas schema_list)
       (ord seeds) seeds"

text \<open>Lines 56 and 57: the first declared tag, or \<open>No tag\<close>.\<close>

definition first_tag :: "json \<Rightarrow> error + json" where
  "first_tag op =
     ebind (py_get op ''tags'' (JArr [])) (\<lambda>tags_list.
       if py_truthy tags_list then py_first tags_list else Inr (JStr ''No tag''))"

text \<open>The body of the loop of \<^verbatim>\<open>parse_path\<close>: one operation of one path.\<close>

definition parse_operation ::
  "(string list \<Rightarrow> string list) \<Rightarrow> string \<Rightarrow> schema_index \<Rightarrow> string \<Rightarrow> json \<Rightarrow> error + Operation" where
  "parse_operation ord p all_schemas v op =
     ebind (py_get op ''requestBody'' JNull) (\<lambda>body.
     ebind (if body \<noteq> JNull then add_schemas_from_operation body [] else Inr []) (\<lambda>seeds1.
     ebind (py_index op ''responses'') (\<lambda>responses.
     ebind (py_values responses) (\<lambda>response_list.
     ebind (efold add_schemas_from_operation response_list seeds1) (\<lambda>seeds.
     ebind (expand_seeds ord all_schemas seeds) (\<lambda>schema_list.
     ebind (first_tag op) (\<lambda>t.
     ebind (py_get op ''operationId'' JNull) (\<lambda>oid.
     ebind (py_get op ''summary'' JNull) (\<lambda>s.
       Inr \<lparr>op_id = oid, verb = v, path = p, summary = s, tag = t,
            schemas = ord schema_list\<rparr>)))))))))"

definition parse_path ::
  "(string list \<Rightarrow> string list) \<Rightarrow> string \<Rightarrow> json \<Rightarrow> schema_index \<Rightarrow> error + Operation list" where
  "parse_path ord p operations all_schemas =
     ebind (py_items operations) (\<lambda>items.
       efold (\<lambda>(v, op) result.
                ebind (parse_operation ord p all_schemas v op) (\<lambda>operation. Inr (result @ [operation])))
             items [])"

section \<open>Loading a document\<close>

text \<open>\<^verbatim>\<open>{op.op_id: op for op in operations_list}\<close>: a later operation with the same
  identifier takes the place of the earlier one.\<close>

definition build_catalog :: "Operation list \<Rightarrow> error + (json \<times> Operation) list" where
  "build_catalog operations_list =
     efold (\<lambda>op d. if hashable (op_id op) then Inr (AList.update (op_id op) op d)
                    else Inl (TypeError ''unhashable type''))
           operations_list []"

function groupby :: "('a \<Rightarrow> 'k) \<Rightarrow> 'a list \<Rightarrow> ('k \<times> 'a list) list" where
  "groupby key [] = []"
| "groupby key (x # xs) =
     (key x, x # takeWhile (\<lambda>y. key y = key x) xs)
       # groupby key (dropWhile (\<lambda>y. key y = key x) xs)"
  by pat_completeness auto
termination
  by (relation "measure (\<lambda>(key, xs). length xs)")
     (auto simp: length_dropWhile_le less_Suc_eq_le)

definition group_by_tag :: "Operation list \<Rightarrow> error + (json \<times> Operation list) list" where
  "group_by_tag ops =
     efold (\<lambda>(t, group) d.
              if hashable t
              then Inr (AList.update t ((case map_of d t of None \<Rightarrow> [] | Some g \<Rightarrow> g) @ group) d)
              else Inl (TypeError ''unhashable type''))
           (groupby tag ops) []"

definition load_api_spec ::
  "(string list \<Rightarrow> string list) \<Rightarrow> json
     \<Rightarrow> error + (json \<times> schema_index \<times> (json \<times> Operation) list \<times> (json \<times> Operation list) list)" where
  "load_api_spec ord spec =
     (case ebind (py_get spec ''openapi'' JNull) (\<lambda>marker.
             if marker = JNull then Inl (Exception ''Not a valid openapi 3.0.1 file'') else Inr spec) of
        Inl e \<Rightarrow> Inl (Stopped e)
      | Inr spec \<Rightarrow>
          ebind (py_index spec ''components'') (\<lambda>components.
          ebind (py_index components ''schemas'') (\<lambda>schemas_obj.
          ebind (py_items schemas_obj) (\<lambda>schema_items.
          (let all_schemas = map (\<lambda>(k, v). (k, dumps v)) schema_items in
          ebind (py_index spec ''paths'') (\<lambda>paths.
          ebind (py_items paths) (\<lambda>path_items.
          ebind (efold (\<lambda>(p, path_operations) operations_list.
                          ebind (parse_path ord p path_operations all_schemas)
                            (\<lambda>r. Inr (operations_list @ r)))
                   path_items []) (\<lambda>operations_list.
          ebind (build_catalog operations_list) (\<lambda>operations.
          ebind (group_by_tag (map snd operations)) (\<lambda>group_operations.
            Inr (spec, all_schemas, operations, group_operations)))))))))))"

section \<open>Reducing a document to a selection\<close>

text \<open>\<^verbatim>\<open>operations[operation_id]\<close>: the selection holds strings.\<close>

definition catalog_index :: "(json \<times> Operation) list \<Rightarrow> string \<Rightarrow> error + Operation" where
  "catalog_index operations operation_id =
     (case map_of operations (JStr operation_id) of
        None \<Rightarrow> Inl (KeyError operation_id)
      | Some operation \<Rightarrow> Inr operation)"

definition select_schemas ::
  "(string list \<Rightarrow> string list) \<Rightarrow> (json \<times> Operation) list \<Rightarrow> string list \<Rightarrow> error + string list" where
  "select_schemas ord operations selected_operations =
     ebind (efold (\<lambda>operation_id selected_schemas.
                     ebind (catalog_index operations operation_id) (\<lambda>operation.
                       Inr (selected_schemas @ schemas operation)))
              selected_operations [])
       (\<lambda>selected_schemas. Inr (ord selected_schemas))"

text \<open>
  The body of the loop over the selected operations. The right-hand side of the
  assignment is evaluated before its target.
\<close>

definition copy_operation :: "json \<Rightarrow> Operation \<Rightarrow> json \<Rightarrow> error + json" where
  "copy_operation spec operation reduced_spec =
     ebind (py_index reduced_spec ''paths'') (\<lambda>reduced_paths.
     ebind (py_setdefault reduced_paths (path operation) (JObj [])) (\<lambda>reduced_paths.
     ebind (py_index spec ''paths'') (\<lambda>paths.
     ebind (py_index paths (path operation)) (\<lambda>path_item.
     ebind (py_index path_item (verb operation)) (\<lambda>source.
     ebind (py_index reduced_paths (path operation)) (\<lambda>reduced_item.
     ebind (py_setitem reduced_item (verb operation) source) (\<lambda>reduced_item.
     ebind (py_setitem reduced_paths (path operation) reduced_item) (\<lambda>reduced_paths.
       py_setitem reduced_spec ''paths'' reduced_paths))))))))"

definition copy_schema :: "json \<Rightarrow> string \<Rightarrow> json \<Rightarrow> error + json" where
  "copy_schema spec schema reduced_spec =
     ebind (py_index spec ''components'') (\<lambda>components.
     ebind (py_index components ''schemas'') (\<lambda>schemas_obj.
     ebind (py_index schemas_obj schema) (\<lambda>source.
     ebind (py_index reduced_spec ''components'') (\<lambda>reduced_components.
     ebind (py_index reduced_components ''schemas'') (\<lambda>reduced_schemas.
     ebind (py_setitem reduced_schemas schema source) (\<lambda>reduced_schemas.
     ebind (py_setitem reduced_components ''schemas'' reduced_schemas) (\<lambda>reduced_components.
       py_setitem reduced_spec ''components'' reduced_components)))))))"

text \<open>The loop over the selected operations, lines 138 to 143.\<close>

definition copy_operations ::
  "json \<Rightarrow> (json \<times> Operation) list \<Rightarrow> string list \<Rightarrow> json \<Rightarrow> error + json" where
  "copy_operations spec operations selected_operations reduced_spec =
     efold (\<lambda>operation_id reduced_spec.
              ebind (catalog_index operations operation_id) (\<lambda>operation.
                copy_operation spec operation reduced_spec))
       selected_operations reduced_spec"

text \<open>
  Lines 116 to 148 of the script. The two progress bars divide by the number of
  operations and by the number of schemas. The deep copy of an immutable value is the
  value itself; the section on the store shows the copy and the writes on objects.
\<close>

definition reduce_spec ::
  "(string list \<Rightarrow> string list) \<Rightarrow> json \<Rightarrow> schema_index \<Rightarrow> (json \<times> Operation) list
     \<Rightarrow> string list \<Rightarrow> error + json" where
  "reduce_spec ord spec all_schemas operations selected_operations =
     ebind (select_schemas ord operations selected_operations) (\<lambda>selected_schemas.
       if length operations = 0 then Inl ZeroDivisionError
       else if length all_schemas = 0 then Inl ZeroDivisionError
       else
         ebind (py_setitem spec ''paths'' (JObj [])) (\<lambda>reduced_spec.
         ebind (py_index reduced_spec ''components'') (\<lambda>reduced_components.
         ebind (py_setitem reduced_components ''schemas'' (JObj [])) (\<lambda>reduced_components.
         ebind (py_setitem reduced_spec ''components'' reduced_components) (\<lambda>reduced_spec.
         ebind (copy_operations spec operations selected_operations reduced_spec) (\<lambda>reduced_spec.
           efold (copy_schema spec) selected_schemas reduced_spec))))))"

section \<open>Reading a document\<close>

text \<open>
  \<^verbatim>\<open>doc["paths"][p][v]\<close> and \<^verbatim>\<open>doc["components"]["schemas"][name]\<close>: the
  entries by which two documents are compared, whatever the order of their keys.
\<close>

definition lookup_path :: "json \<Rightarrow> string \<Rightarrow> string \<Rightarrow> error + json" where
  "lookup_path doc p v =
     ebind (py_index doc ''paths'') (\<lambda>paths.
     ebind (py_index paths p) (\<lambda>path_item. py_index path_item v))"

definition lookup_schema :: "json \<Rightarrow> string \<Rightarrow> error + json" where
  "lookup_schema doc name =
     ebind (py_index doc ''components'') (\<lambda>components.
     ebind (py_index components ''schemas'') (\<lambda>schemas_obj. py_index schemas_obj name))"

definition path_entries :: "json \<Rightarrow> (string \<times> string \<times> json) set" where
  "path_entries doc = {(p, v, x). lookup_path doc p v = Inr x}"

definition schema_entries :: "json \<Rightarrow> (string \<times> json) set" where
  "schema_entries doc = {(name, x). lookup_schema doc name = Inr x}"

text \<open>
  A selection selects the pair of a path and a verb when it holds the identifier of an
  operation of the catalog with that path and verb.
\<close>

definition selects :: "(json \<times> Operation) list \<Rightarrow> string list \<Rightarrow> string \<Rightarrow> string \<Rightarrow> bool" where
  "selects operations selected_operations p v \<longleftrightarrow>
     (\<exists>operation_id\<in>set selected_operations. \<exists>operation.
        catalog_index operations operation_id = Inr operation \<and>
        path operation = p \<and> verb operation = v)"

text \<open>The selection of every operation: the string keys of the catalog.\<close>

fun all_operation_ids :: "(json \<times> Operation) list \<Rightarrow> string list" where
  "all_operation_ids [] = []"
| "all_operation_ids ((JStr s, operation) # operations) = s # all_operation_ids operations"
| "all_operation_ids (_ # operations) = all_operation_ids operations"

text \<open>
  The operation objects of a document with their paths and verbs, in document order,
  and the identifiers they declare.
\<close>

definition path_operations :: "string \<times> json \<Rightarrow> (string \<times> string \<times> json) list" where
  "path_operations entry =
     (case snd entry of
        JObj items \<Rightarrow> map (\<lambda>item. (fst entry, fst item, snd item)) items
      | _ \<Rightarrow> [])"

definition document_operations :: "json \<Rightarrow> (string \<times> string \<times> json) list" where
  "document_operations doc =
     (case py_index doc ''paths'' of
        Inr (JObj path_items) \<Rightarrow> concat (map path_operations path_items)
      | _ \<Rightarrow> [])"

definition declared_id :: "json \<Rightarrow> json" where
  "declared_id op =
     (case op of
        JObj d \<Rightarrow> (case map_of d ''operationId'' of None \<Rightarrow> JNull | Some x \<Rightarrow> x)
      | _ \<Rightarrow> JNull)"

definition operation_ids :: "json \<Rightarrow> json list" where
  "operation_ids doc = map (\<lambda>(p, v, op). declared_id op) (document_operations doc)"

text \<open>
  What extraction makes of an operation object found under a path and a verb.
\<close>

definition extracted :: "string \<times> string \<times> json \<Rightarrow> Operation \<Rightarrow> bool" where
  "extracted entry operation \<longleftrightarrow>
     path operation = fst entry \<and> verb operation = fst (snd entry) \<and>
     op_id operation = declared_id (snd (snd entry))"

section \<open>Example documents\<close>


definition doc_missing_id :: json where
  "doc_missing_id =
     JObj [(''openapi'', JStr ''3.0.1''),
           (''paths'', JObj [(''/pets'', JObj
              [(''get'', JObj [(''summary'', JStr ''List pets''), (''responses'', JObj [])])])]),
           (''components'', JObj [(''schemas'', JObj [(''Pet'', JObj [])])])]"




definition index_twice :: schema_index where
  "index_twice =
     [(''A'', dumps (JObj [(''x'', JObj [(''$ref'', JStr ''#/components/schemas/B'')]),
                           (''y'', JObj [(''$ref'', JStr ''#/components/schemas/B'')])])),
      (''B'', dumps (JObj []))]"

definition doc_pets :: json where
  "doc_pets =
     JObj [(''openapi'', JStr ''3.0.1''),
           (''info'', JObj [(''title'', JStr ''Pets''), (''version'', JStr ''1'')]),
           (''paths'', JObj [(''/pets'', JObj
              [(''get'', JObj [(''operationId'', JStr ''getPet''),
                  (''responses'', JObj [(''200'', JObj [(''content'', JObj [(''application/json'',
                      JObj [(''schema'', JObj [(''$ref'', JStr ''#/components/schemas/Pet'')])])])])])]),
               (''post'', JObj [(''operationId'', JStr ''addPet''), (''responses'', JObj [])])])]),
           (''components'', JObj
              [(''schemas'', JObj
                  [(''Pet'', JObj [(''properties'', JObj [(''tag'', JObj [(''$ref'', JStr ''#/components/schemas/Tag'')])])]),
                   (''Tag'', JObj [(''type'', JStr ''string'')]),
                   (''Unused'', JObj [(''type'', JStr ''integer'')])]),
               (''securitySchemes'', JObj [])])]"

definition pets_index :: schema_index where
  "pets_index =
     [(''Pet'', ''{\"properties\": {\"tag\": {\"$ref\": \"#/components/schemas/Tag\"}}}''),
      (''Tag'', ''{\"type\": \"string\"}''),
      (''Unused'', ''{\"type\": \"integer\"}'')]"

definition op_get_pet :: Operation where
  "op_get_pet = \<lparr>op_id = JStr ''getPet'', verb = ''get'', path = ''/pets'', summary = JNull,
                  tag = JStr ''No tag'', schemas = [''Pet'', ''Tag'']\<rparr>"

definition op_add_pet :: Operation where
  "op_add_pet = \<lparr>op_id = JStr ''addPet'', verb = ''post'', path = ''/pets'', summary = JNull,
                  tag = JStr ''No tag'', schemas = []\<rparr>"

definition pets_catalog :: "(json \<times> Operation) list" where
  "pets_catalog = [(JStr ''getPet'', op_get_pet), (JStr ''addPet'', op_add_pet)]"

definition doc_pets_add :: json where
  "doc_pets_add =
     JObj [(''openapi'', JStr ''3.0.1''),
           (''info'', JObj [(''title'', JStr ''Pets''), (''version'', JStr ''1'')]),
           (''paths'', JObj [(''/pets'', JObj
              [(''post'', JObj [(''operationId'', JStr ''addPet''), (''responses'', JObj [])])])]),
           (''components'', JObj [(''schemas'', JObj []), (''securitySchemes'', JObj [])])]"

definition doc_pets_all :: json where
  "doc_pets_all =
     JObj [(''openapi'', JStr ''3.0.1''),
           (''info'', JObj [(''title'', JStr ''Pets''), (''version'', JStr ''1'')]),
           (''paths'', JObj [(''/pets'', JObj
              [(''get'', JObj [(''operationId'', JStr ''getPet''),
                  (''responses'', JObj [(''200'', JObj [(''content'', JObj [(''application/json'',
                      JObj [(''schema'', JObj [(''$ref'', JStr ''#/components/schemas/Pet'')])])])])])]),
               (''post'', JObj [(''operationId'', JStr ''addPet''), (''responses'', JObj [])])])]),
           (''components'', JObj
              [(''schemas'', JObj
                  [(''Pet'', JObj [(''properties'', JObj [(''tag'', JObj [(''$ref'', JStr ''#/components/schemas/Tag'')])])]),
                   (''Tag'', JObj [(''type'', JStr ''string'')])]),
               (''securitySchemes'', JObj [])])]"

section \<open>The scan for references\<close>

lemma refs_at_Nil [simp]: "refs_at [] = []"
  by (simp add: refs_at_def ref_prefix_def)

lemma refs_at_not_hash: "c \<noteq> CHR ''#'' \<Longrightarrow> refs_at (c # cs) = []"
  by (simp add: refs_at_def ref_prefix_def)

lemma refs_tails_skip:
  "CHR ''#'' \<notin> set u \<Longrightarrow> concat (map refs_at (tails (u @ v))) = concat (map refs_at (tails v))"
  by (induction u) (auto simp: refs_at_not_hash)

lemma hash_not_word: "\<not> is_word_char CHR ''#''"
  by (simp add: is_word_char_def word_chars_def)

lemma findall_refs_tails: "findall_refs s = concat (map refs_at (tails s))"
proof (induction s rule: findall_refs.induct)
  case 1
  show ?case by simp
next
  case (2 c cs)
  show ?case
  proof (cases "strip_prefix ref_prefix (c # cs)")
    case None
    then have "refs_at (c # cs) = []" by (simp add: refs_at_def)
    with None 2 show ?thesis by simp
  next
    case (Some rest)
    let ?tok = "takeWhile is_word_char rest"
    show ?thesis
    proof (cases "?tok = []")
      case True
      with Some have "refs_at (c # cs) = []" by (simp add: refs_at_def)
      with Some True 2 show ?thesis by simp
    next
      case False
      from Some have "c # cs = ref_prefix @ rest"
        by (simp add: strip_prefix_Some)
      then have cs: "cs = (tl ref_prefix @ ?tok) @ dropWhile is_word_char rest"
        by (simp add: ref_prefix_def)
      have "CHR ''#'' \<notin> set ?tok"
        using hash_not_word by (metis (mono_tags, lifting) set_takeWhileD)
      then have nohash: "CHR ''#'' \<notin> set (tl ref_prefix @ ?tok)"
        by (simp add: ref_prefix_def)
      have "concat (map refs_at (tails cs))
              = concat (map refs_at (tails (dropWhile is_word_char rest)))"
        by (subst cs) (rule refs_tails_skip[OF nohash])
      moreover have "refs_at (c # cs) = [?tok]"
        using Some False by (simp add: refs_at_def)
      ultimately show ?thesis
        using Some False 2 by simp
    qed
  qed
qed

lemma takeWhile_eq_iff:
  "takeWhile P xs = t \<longleftrightarrow> (\<exists>r. xs = t @ r \<and> (\<forall>c\<in>set t. P c) \<and> (r = [] \<or> \<not> P (hd r)))"
proof
  assume "takeWhile P xs = t"
  then have "xs = t @ dropWhile P xs" "\<forall>c\<in>set t. P c"
    by (auto dest: set_takeWhileD)
  moreover have "dropWhile P xs = [] \<or> \<not> P (hd (dropWhile P xs))"
    using hd_dropWhile by blast
  ultimately show "\<exists>r. xs = t @ r \<and> (\<forall>c\<in>set t. P c) \<and> (r = [] \<or> \<not> P (hd r))"
    by blast
next
  assume "\<exists>r. xs = t @ r \<and> (\<forall>c\<in>set t. P c) \<and> (r = [] \<or> \<not> P (hd r))"
  then obtain r where "xs = t @ r" "\<forall>c\<in>set t. P c" "r = [] \<or> \<not> P (hd r)"
    by blast
  then show "takeWhile P xs = t"
    by (cases r) (auto simp: takeWhile_append2)
qed

lemma refs_at_iff:
  "t \<in> set (refs_at s) \<longleftrightarrow>
     t \<noteq> [] \<and> (\<forall>c\<in>set t. is_word_char c) \<and>
     (\<exists>r. s = ref_prefix @ t @ r \<and> (r = [] \<or> \<not> is_word_char (hd r)))"
proof (cases "strip_prefix ref_prefix s")
  case None
  then have "\<And>r. s \<noteq> ref_prefix @ r"
    by (metis option.distinct(1) strip_prefix_Some)
  with None show ?thesis by (auto simp: refs_at_def)
next
  case (Some rest)
  then have s: "s = ref_prefix @ rest"
    by (simp add: strip_prefix_Some)
  have "t \<in> set (refs_at s) \<longleftrightarrow> t \<noteq> [] \<and> takeWhile is_word_char rest = t"
    using Some by (auto simp: refs_at_def)
  also have "\<dots> \<longleftrightarrow> t \<noteq> [] \<and> (\<exists>r. rest = t @ r \<and> (\<forall>c\<in>set t. is_word_char c) \<and> (r = [] \<or> \<not> is_word_char (hd r)))"
    by (simp only: takeWhile_eq_iff)
  also have "\<dots> \<longleftrightarrow> t \<noteq> [] \<and> (\<forall>c\<in>set t. is_word_char c) \<and>
     (\<exists>r. s = ref_prefix @ t @ r \<and> (r = [] \<or> \<not> is_word_char (hd r)))"
    using s by auto
  finally show ?thesis .
qed


lemma set_tails: "set (tails s) = {v. \<exists>u. s = u @ v}"
proof (induction s)
  case Nil
  show ?case by auto
next
  case (Cons x xs)
  have "{v. \<exists>u. x # xs = u @ v} = insert (x # xs) {v. \<exists>u. xs = u @ v}"
    by (auto simp: Cons_eq_append_conv)
  with Cons show ?case by simp
qed

lemma findall_refs_iff:
  "t \<in> set (findall_refs s) \<longleftrightarrow>
     t \<noteq> [] \<and> (\<forall>c\<in>set t. is_word_char c) \<and>
     (\<exists>a r. s = a @ ref_prefix @ t @ r \<and> (r = [] \<or> \<not> is_word_char (hd r)))"
proof -
  have "t \<in> set (findall_refs s) \<longleftrightarrow> (\<exists>v\<in>set (tails s). t \<in> set (refs_at v))"
    by (simp add: findall_refs_tails)
  also have "\<dots> \<longleftrightarrow> (\<exists>a v. s = a @ v \<and> t \<in> set (refs_at v))"
    by (auto simp: set_tails)
  also have "\<dots> \<longleftrightarrow> t \<noteq> [] \<and> (\<forall>c\<in>set t. is_word_char c) \<and>
     (\<exists>a r. s = a @ ref_prefix @ t @ r \<and> (r = [] \<or> \<not> is_word_char (hd r)))"
    unfolding refs_at_iff by blast
  finally show ?thesis .
qed

text \<open>
  C9. The scan of a serialised schema body returns, in order, what the pattern matches
  at each position of the body: the list of the maximal runs of characters of
  \<open>[A-Za-z0-9_]\<close> that follow an occurrence of \<open>#/components/schemas/\<close>. A name is
  returned exactly when it is not empty, consists of word characters, follows the
  prefix somewhere in the body and is followed by the end of the body or by a character
  that is not a word character. So of the referenced names \<open>Foo.Bar\<close> and \<open>Foo-Bar\<close>
  only \<open>Foo\<close> is captured.
\<close>

theorem findall_refs_maximal_word_tokens:
  "findall_refs body = concat (map refs_at (tails body)) \<and>
   (\<forall>t. t \<in> set (findall_refs body) \<longleftrightarrow>
          t \<noteq> [] \<and> (\<forall>c\<in>set t. is_word_char c) \<and>
          (\<exists>a r. body = a @ ref_prefix @ t @ r \<and> (r = [] \<or> \<not> is_word_char (hd r)))) \<and>
   findall_refs (dumps (JObj [(''$ref'', JStr ''#/components/schemas/Foo.Bar'')])) = [''Foo''] \<and>
   findall_refs (dumps (JObj [(''$ref'', JStr ''#/components/schemas/Foo-Bar'')])) = [''Foo'']"
proof (intro conjI allI)
  show "findall_refs body = concat (map refs_at (tails body))"
    by (rule findall_refs_tails)
  show "t \<in> set (findall_refs body) \<longleftrightarrow>
          t \<noteq> [] \<and> (\<forall>c\<in>set t. is_word_char c) \<and>
          (\<exists>a r. body = a @ ref_prefix @ t @ r \<and> (r = [] \<or> \<not> is_word_char (hd r)))" for t
    by (rule findall_refs_iff)
  show "findall_refs (dumps (JObj [(''$ref'', JStr ''#/components/schemas/Foo.Bar'')])) = [''Foo'']"
    by code_simp
  show "findall_refs (dumps (JObj [(''$ref'', JStr ''#/components/schemas/Foo-Bar'')])) = [''Foo'']"
    by code_simp
qed

theorem findall_refs_maximal_word_tokens_witness:
  "concat (map refs_at (tails ''{\"a\": \"#/components/schemas/Pet_1\", \"b\": \"#/components/schemas/\"}''))
     = [''Pet_1'']"
proof -
  have "findall_refs ''{\"a\": \"#/components/schemas/Pet_1\", \"b\": \"#/components/schemas/\"}''
          = [''Pet_1'']"
    by code_simp
  with findall_refs_maximal_word_tokens
         [of "''{\"a\": \"#/components/schemas/Pet_1\", \"b\": \"#/components/schemas/\"}''"]
  show ?thesis by (simp only:)
qed

section \<open>The loader\<close>

text \<open>
  C10. A document that is a JSON object with an \<open>openapi\<close> marker other than null
  passes the guarded check of lines 74 to 80. If it has no \<open>components\<close> key, or its
  \<open>components\<close> object has no \<open>schemas\<close> key, line 81 raises the \<open>KeyError\<close> of the
  missing key. The error is outside the \<^verbatim>\<open>try\<close> block, so it is not turned into
  \<open>Stopped\<close>, and no empty schema index is built.
\<close>

theorem load_api_spec_missing_schemas:
  assumes "map_of d ''openapi'' = Some marker" and "marker \<noteq> JNull"
  shows "(map_of d ''components'' = None \<longrightarrow>
            load_api_spec ord (JObj d) = Inl (KeyError ''components'')) \<and>
         (\<forall>c. map_of d ''components'' = Some (JObj c) \<and> map_of c ''schemas'' = None \<longrightarrow>
            load_api_spec ord (JObj d) = Inl (KeyError ''schemas''))"
  using assms by (simp add: load_api_spec_def py_get_def py_index_def)

theorem load_api_spec_missing_schemas_witness:
  "load_api_spec remdups (JObj [(''openapi'', JStr ''3.0.1''), (''paths'', JObj [])])
     = Inl (KeyError ''components'') \<and>
   load_api_spec remdups
     (JObj [(''openapi'', JStr ''3.0.1''), (''components'', JObj []), (''paths'', JObj [])])
     = Inl (KeyError ''schemas'')"
  using load_api_spec_missing_schemas
          [of "[(''openapi'', JStr ''3.0.1''), (''paths'', JObj [])]" "JStr ''3.0.1''" remdups]
        load_api_spec_missing_schemas
          [of "[(''openapi'', JStr ''3.0.1''), (''components'', JObj []), (''paths'', JObj [])]"
              "JStr ''3.0.1''" remdups]
  by simp

section \<open>Extraction of operations\<close>

lemma set_order_Nil: "set_order ord \<Longrightarrow> ord [] = []"
proof -
  assume "set_order ord"
  then have "set (ord []) = set []"
    unfolding set_order_def by blast
  then show ?thesis by simp
qed

lemma expand_seeds_Nil: "set_order ord \<Longrightarrow> expand_seeds ord all_schemas [] = Inr []"
  by (simp add: expand_seeds_def set_order_Nil)

lemma parse_path_single:
  "parse_path ord p (JObj [(v, op)]) all_schemas
     = ebind (parse_operation ord p all_schemas v op) (\<lambda>operation. Inr [operation])"
  by (cases "parse_operation ord p all_schemas v op") (simp_all add: parse_path_def py_items_def)

text \<open>
  C5. An operation object with no request body whose \<open>responses\<close> field is an empty
  mapping, and whose tag can be computed, is extracted into an operation with an empty
  schema set. Line 52 indexes \<open>responses\<close> directly: an operation object without that
  key raises the \<open>KeyError\<close> of \<open>responses\<close>.
\<close>

theorem parse_path_empty_responses:
  assumes "set_order ord"
    and "map_of d ''requestBody'' = None \<or> map_of d ''requestBody'' = Some JNull"
    and "first_tag (JObj d) = Inr t"
  shows "(map_of d ''responses'' = Some (JObj []) \<longrightarrow>
            parse_path ord p (JObj [(v, JObj d)]) all_schemas
              = Inr [\<lparr>op_id = (case map_of d ''operationId'' of None \<Rightarrow> JNull | Some x \<Rightarrow> x),
                      verb = v, path = p,
                      summary = (case map_of d ''summary'' of None \<Rightarrow> JNull | Some x \<Rightarrow> x),
                      tag = t, schemas = []\<rparr>]) \<and>
         (map_of d ''responses'' = None \<longrightarrow>
            parse_path ord p (JObj [(v, JObj d)]) all_schemas = Inl (KeyError ''responses''))"
proof (intro conjI impI)
  assume "map_of d ''responses'' = Some (JObj [])"
  with assms show "parse_path ord p (JObj [(v, JObj d)]) all_schemas
              = Inr [\<lparr>op_id = (case map_of d ''operationId'' of None \<Rightarrow> JNull | Some x \<Rightarrow> x),
                      verb = v, path = p,
                      summary = (case map_of d ''summary'' of None \<Rightarrow> JNull | Some x \<Rightarrow> x),
                      tag = t, schemas = []\<rparr>]"
    by (auto simp: parse_path_single parse_operation_def py_get_def py_index_def
          py_values_def expand_seeds_Nil set_order_Nil)
next
  assume "map_of d ''responses'' = None"
  with assms show "parse_path ord p (JObj [(v, JObj d)]) all_schemas = Inl (KeyError ''responses'')"
    by (auto simp: parse_path_single parse_operation_def py_get_def py_index_def)
qed

lemma set_order_remdups: "set_order remdups"
  by (simp add: set_order_def)

theorem parse_path_empty_responses_witness:
  "parse_path remdups ''/pets'' (JObj [(''get'', JObj [(''operationId'', JStr ''listPets''), (''responses'', JObj [])])]) []
     = Inr [\<lparr>op_id = JStr ''listPets'', verb = ''get'', path = ''/pets'', summary = JNull,
              tag = JStr ''No tag'', schemas = []\<rparr>] \<and>
   parse_path remdups ''/pets'' (JObj [(''get'', JObj [(''operationId'', JStr ''listPets'')])]) []
     = Inl (KeyError ''responses'')"
proof -
  have t1: "first_tag (JObj [(''operationId'', JStr ''listPets''), (''responses'', JObj [])]) = Inr (JStr ''No tag'')"
    by (simp add: first_tag_def py_get_def)
  have t2: "first_tag (JObj [(''operationId'', JStr ''listPets'')]) = Inr (JStr ''No tag'')"
    by (simp add: first_tag_def py_get_def)
  show ?thesis
    using parse_path_empty_responses[OF set_order_remdups _ t1, of "''/pets''" "''get''" "[]"]
          parse_path_empty_responses[OF set_order_remdups _ t2, of "''/pets''" "''get''" "[]"]
    by simp
qed

text \<open>
  An operation object that declares neither a request body nor responses: extraction
  raises.
\<close>

theorem parse_path_no_responses_counterexample:
  "map_of [(''operationId'', JStr ''listPets'')] ''requestBody'' = None \<and>
   map_of [(''operationId'', JStr ''listPets'')] ''responses'' = None \<and>
   parse_path remdups ''/pets'' (JObj [(''get'', JObj [(''operationId'', JStr ''listPets'')])]) [(''Pet'', ''{}'')]
     = Inl (KeyError ''responses'')"
  by (simp add: parse_path_single parse_operation_def py_get_def py_index_def)


section \<open>The catalog\<close>

lemma build_catalog_fold:
  assumes "\<forall>op\<in>set ops. hashable (op_id op)"
  shows "efold (\<lambda>op d. if hashable (op_id op) then Inr (AList.update (op_id op) op d)
                       else Inl (TypeError ''unhashable type'')) ops d0
           = Inr (fold (\<lambda>op d. AList.update (op_id op) op d) ops d0)"
  using assms by (induction ops arbitrary: d0) auto

lemma find_append_case:
  "find P (xs @ ys) = (case find P xs of None \<Rightarrow> find P ys | Some x \<Rightarrow> Some x)"
  by (induction xs) auto

lemma find_Some_set: "find P xs = Some x \<Longrightarrow> P x \<and> x \<in> set xs"
  by (induction xs) (auto split: if_splits)

lemma map_of_fold_update:
  "map_of (fold (\<lambda>op d. AList.update (op_id op) op d) ops d0) k
     = (case find (\<lambda>op. op_id op = k) (rev ops) of None \<Rightarrow> map_of d0 k | Some op \<Rightarrow> Some op)"
proof (induction ops arbitrary: d0)
  case Nil
  show ?case by simp
next
  case (Cons a ops)
  show ?case
    by (simp add: Cons.IH update_conv' find_append_case split: option.splits)
qed





lemma parse_operation_op_id:
  "parse_operation ord p all_schemas v (JObj d) = Inr operation \<Longrightarrow>
     op_id operation = (case map_of d ''operationId'' of None \<Rightarrow> JNull | Some x \<Rightarrow> x)"
  by (auto simp: parse_operation_def ebind_eq_Inr py_get_def)

text \<open>
  C4. An operation object without an \<open>operationId\<close> field is extracted with the
  identifier \<open>None\<close>, and the catalog is built all the same: it holds an operation
  without identifier under the key \<open>None\<close>.
\<close>

theorem build_catalog_missing_operation_id:
  assumes "map_of d ''operationId'' = None"
    and "parse_operation ord p all_schemas v (JObj d) = Inr operation"
    and "operation \<in> set operations_list"
    and "\<forall>op\<in>set operations_list. hashable (op_id op)"
  shows "op_id operation = JNull \<and>
         (\<exists>operations op'. build_catalog operations_list = Inr operations \<and>
            map_of operations JNull = Some op' \<and> op_id op' = JNull \<and> op' \<in> set operations_list)"
proof -
  from assms(1,2) have id: "op_id operation = JNull"
    by (simp add: parse_operation_op_id)
  let ?cat = "fold (\<lambda>op d. AList.update (op_id op) op d) operations_list []"
  have ok: "build_catalog operations_list = Inr ?cat"
    unfolding build_catalog_def by (rule build_catalog_fold[OF assms(4)])
  have m: "map_of ?cat JNull = find (\<lambda>op. op_id op = JNull) (rev operations_list)"
    by (simp add: map_of_fold_update split: option.splits)
  from assms(3) id have "\<exists>op'. find (\<lambda>op. op_id op = JNull) (rev operations_list) = Some op'"
    by (cases "find (\<lambda>op. op_id op = JNull) (rev operations_list)") (auto simp: find_None_iff)
  then obtain op' where f: "find (\<lambda>op. op_id op = JNull) (rev operations_list) = Some op'"
    by blast
  from find_Some_set[OF this] have "op_id op' = JNull" "op' \<in> set operations_list"
    by simp_all
  with id ok m f show ?thesis by auto
qed

text \<open>
  A document whose only operation has no \<open>operationId\<close> is loaded, with that operation
  in the catalog under the key \<open>None\<close>.
\<close>

theorem load_api_spec_missing_id_counterexample:
  "load_api_spec remdups doc_missing_id
     = Inr (doc_missing_id, [(''Pet'', ''{}'')],
            [(JNull,
              \<lparr>op_id = JNull, verb = ''get'', path = ''/pets'', summary = JStr ''List pets'',
                 tag = JStr ''No tag'', schemas = []\<rparr>)],
            [(JStr ''No tag'',
              [\<lparr>op_id = JNull, verb = ''get'', path = ''/pets'', summary = JStr ''List pets'',
                  tag = JStr ''No tag'', schemas = []\<rparr>])])"
  by code_simp

theorem build_catalog_missing_operation_id_witness:
  "parse_operation remdups ''/pets'' [(''Pet'', ''{}'')] ''get''
      (JObj [(''summary'', JStr ''List pets''), (''responses'', JObj [])])
     = Inr \<lparr>op_id = JNull, verb = ''get'', path = ''/pets'', summary = JStr ''List pets'',
              tag = JStr ''No tag'', schemas = []\<rparr> \<and>
   (\<exists>operations op'.
      build_catalog [\<lparr>op_id = JNull, verb = ''get'', path = ''/pets'', summary = JStr ''List pets'',
                       tag = JStr ''No tag'', schemas = []\<rparr>] = Inr operations \<and>
      map_of operations JNull = Some op' \<and> op_id op' = JNull)"
proof -
  let ?o = "\<lparr>op_id = JNull, verb = ''get'', path = ''/pets'', summary = JStr ''List pets'',
             tag = JStr ''No tag'', schemas = []\<rparr>"
  have p: "parse_operation remdups ''/pets'' [(''Pet'', ''{}'')] ''get''
      (JObj [(''summary'', JStr ''List pets''), (''responses'', JObj [])]) = Inr ?o"
    by code_simp
  have n: "map_of [(''summary'', JStr ''List pets''), (''responses'', JObj [])] ''operationId'' = None"
    by simp
  have h: "\<forall>op\<in>set [?o]. hashable (op_id op)" by simp
  from build_catalog_missing_operation_id[OF n p _ h] p show ?thesis
    by auto
qed


section \<open>The closure of schema references\<close>





lemma map_of_keys: "map_of al k = Some v \<Longrightarrow> k \<in> fst ` set al"
  by (metis domI dom_map_of_conv_image_fst)













lemma set_order_set: "set_order ord \<Longrightarrow> set (ord xs) = set xs"
  by (simp add: set_order_def)









text \<open>
  A name that occurs twice in one body is appended twice, and then expanded twice: the
  test of line 29 is made for all matches of a body before any of them is appended.
\<close>

lemma accumulated_list_duplicates:
  "add_missing_schemas ''A'' index_twice [''A''] = Inr [''A'', ''B'', ''B'']"
  by code_simp




section \<open>Reduction\<close>

lemma py_index_Inr: "py_index x k = Inr v \<longleftrightarrow> (\<exists>d. x = JObj d \<and> map_of d k = Some v)"
  by (cases x) (auto simp: py_index_def split: option.splits)

lemma py_setitem_Inr: "py_setitem x k v = Inr y \<longleftrightarrow> (\<exists>d. x = JObj d \<and> y = JObj (AList.update k v d))"
  by (cases x) (auto simp: py_setitem_def)

lemma py_setdefault_Inr:
  "py_setdefault x k dflt = Inr y \<longleftrightarrow>
     (\<exists>d. x = JObj d \<and> y = JObj (case map_of d k of None \<Rightarrow> d @ [(k, dflt)] | Some _ \<Rightarrow> d))"
  by (cases x) (auto simp: py_setdefault_def)

lemma py_index_JObj:
  "py_index (JObj d) k = (case map_of d k of None \<Rightarrow> Inl (KeyError k) | Some v \<Rightarrow> Inr v)"
  by (simp add: py_index_def)

lemma map_of_setdefault:
  "map_of (case map_of d k of None \<Rightarrow> d @ [(k, dflt)] | Some _ \<Rightarrow> d) k'
     = (if k' = k \<and> map_of d k = None then Some dflt else map_of d k')"
  by (auto simp: map_add_def split: option.splits)

lemma copy_operation_path:
  assumes "copy_operation spec operation reduced_spec = Inr reduced_spec'"
  shows "lookup_path reduced_spec' p v = Inr x \<longleftrightarrow>
           (if p = path operation \<and> v = verb operation
            then lookup_path spec p v = Inr x
            else lookup_path reduced_spec p v = Inr x)"
    and "lookup_path spec (path operation) (verb operation) \<noteq> Inl e"
    and "k \<noteq> ''paths'' \<Longrightarrow> py_index reduced_spec' k = py_index reduced_spec k"
    and "lookup_schema reduced_spec' name = lookup_schema reduced_spec name"
proof -
  from assms obtain T P paths path_item source item where
    red: "reduced_spec = JObj T" and P: "map_of T ''paths'' = Some (JObj P)"
    and src1: "py_index spec ''paths'' = Inr paths"
    and src2: "py_index paths (path operation) = Inr path_item"
    and src3: "py_index path_item (verb operation) = Inr source"
    and item: "map_of (case map_of P (path operation) of None \<Rightarrow> P @ [(path operation, JObj [])] | Some _ \<Rightarrow> P)
                 (path operation) = Some (JObj item)"
    and red': "reduced_spec' = JObj (AList.update ''paths''
                 (JObj (AList.update (path operation) (JObj (AList.update (verb operation) source item))
                    (case map_of P (path operation) of None \<Rightarrow> P @ [(path operation, JObj [])] | Some _ \<Rightarrow> P))) T)"
    unfolding copy_operation_def ebind_eq_Inr py_index_Inr py_setitem_Inr py_setdefault_Inr
    by auto
  from src1 src2 src3 have src: "lookup_path spec (path operation) (verb operation) = Inr source"
    by (simp add: lookup_path_def)
  then show "lookup_path spec (path operation) (verb operation) \<noteq> Inl e"
    by simp
  show "k \<noteq> ''paths'' \<Longrightarrow> py_index reduced_spec' k = py_index reduced_spec k"
    by (simp add: red red' py_index_JObj update_conv')
  show "lookup_schema reduced_spec' name = lookup_schema reduced_spec name"
    by (simp add: red red' lookup_schema_def py_index_JObj update_conv')
  from item have item': "map_of P (path operation) = Some (JObj item) \<or>
      (map_of P (path operation) = None \<and> item = [])"
    by (auto simp: map_of_setdefault split: if_splits)
  show "lookup_path reduced_spec' p v = Inr x \<longleftrightarrow>
           (if p = path operation \<and> v = verb operation
            then lookup_path spec p v = Inr x
            else lookup_path reduced_spec p v = Inr x)"
    using item' src
    by (auto simp: red red' P lookup_path_def py_index_JObj update_conv' map_of_setdefault
          split: option.splits if_splits)
qed

lemma copy_schema_step:
  assumes "copy_schema spec schema reduced_spec = Inr reduced_spec'"
  shows "lookup_schema reduced_spec' name = Inr x \<longleftrightarrow>
           (if name = schema then lookup_schema spec name = Inr x
            else lookup_schema reduced_spec name = Inr x)"
    and "lookup_schema spec schema \<noteq> Inl e"
    and "k \<noteq> ''components'' \<Longrightarrow> py_index reduced_spec' k = py_index reduced_spec k"
    and "k \<noteq> ''schemas'' \<Longrightarrow>
           ebind (py_index reduced_spec' ''components'') (\<lambda>c. py_index c k)
             = ebind (py_index reduced_spec ''components'') (\<lambda>c. py_index c k)"
    and "lookup_path reduced_spec' p v = lookup_path reduced_spec p v"
proof -
  from assms obtain T C S components schemas_obj source where
    red: "reduced_spec = JObj T" and C: "map_of T ''components'' = Some (JObj C)"
    and S: "map_of C ''schemas'' = Some (JObj S)"
    and src1: "py_index spec ''components'' = Inr components"
    and src2: "py_index components ''schemas'' = Inr schemas_obj"
    and src3: "py_index schemas_obj schema = Inr source"
    and red': "reduced_spec' = JObj (AList.update ''components''
                 (JObj (AList.update ''schemas'' (JObj (AList.update schema source S)) C)) T)"
    unfolding copy_schema_def ebind_eq_Inr py_index_Inr py_setitem_Inr
    by auto
  from src1 src2 src3 have src: "lookup_schema spec schema = Inr source"
    by (simp add: lookup_schema_def)
  then show "lookup_schema spec schema \<noteq> Inl e"
    by simp
  show "k \<noteq> ''components'' \<Longrightarrow> py_index reduced_spec' k = py_index reduced_spec k"
    by (simp add: red red' py_index_JObj update_conv')
  show "k \<noteq> ''schemas'' \<Longrightarrow>
           ebind (py_index reduced_spec' ''components'') (\<lambda>c. py_index c k)
             = ebind (py_index reduced_spec ''components'') (\<lambda>c. py_index c k)"
    by (simp add: red red' C py_index_JObj update_conv')
  show "lookup_path reduced_spec' p v = lookup_path reduced_spec p v"
    by (simp add: red red' lookup_path_def py_index_JObj update_conv')
  show "lookup_schema reduced_spec' name = Inr x \<longleftrightarrow>
           (if name = schema then lookup_schema spec name = Inr x
            else lookup_schema reduced_spec name = Inr x)"
    using src
    by (auto simp: red red' C S lookup_schema_def py_index_JObj update_conv'
          split: option.splits)
qed

lemma efold_Cons_Inr:
  "efold f (x # xs) s = Inr s' \<longleftrightarrow> (\<exists>s1. f x s = Inr s1 \<and> efold f xs s1 = Inr s')"
  by (simp add: ebind_eq_Inr)

lemma copy_operations_path:
  "copy_operations spec operations sel red = Inr R \<Longrightarrow>
     (lookup_path R p v = Inr x \<longleftrightarrow>
        (if selects operations sel p v then lookup_path spec p v = Inr x
         else lookup_path red p v = Inr x))"
proof (induction sel arbitrary: red)
  case Nil
  then show ?case by (simp add: copy_operations_def selects_def)
next
  case (Cons a sel)
  from Cons.prems obtain operation red1 where
    op: "catalog_index operations a = Inr operation"
    and c: "copy_operation spec operation red = Inr red1"
    and rest: "copy_operations spec operations sel red1 = Inr R"
    unfolding copy_operations_def efold_Cons_Inr ebind_eq_Inr by blast
  note ih = Cons.IH[OF rest]
  note st = copy_operation_path(1)[OF c, of p v x]
  have sel_cons: "selects operations (a # sel) p v \<longleftrightarrow>
      (path operation = p \<and> verb operation = v) \<or> selects operations sel p v"
    using op by (auto simp: selects_def)
  show ?case
    unfolding ih st sel_cons by auto
qed

lemma copy_operations_frame:
  "copy_operations spec operations sel red = Inr R \<Longrightarrow>
     (k \<noteq> ''paths'' \<longrightarrow> py_index R k = py_index red k) \<and>
     lookup_schema R name = lookup_schema red name"
proof (induction sel arbitrary: red)
  case Nil
  then show ?case by (simp add: copy_operations_def)
next
  case (Cons a sel)
  from Cons.prems obtain operation red1 where
    c: "copy_operation spec operation red = Inr red1"
    and rest: "copy_operations spec operations sel red1 = Inr R"
    unfolding copy_operations_def efold_Cons_Inr ebind_eq_Inr by blast
  from Cons.IH[OF rest] copy_operation_path(3,4)[OF c] show ?case
    by simp
qed

lemma copy_schemas_fold:
  "efold (copy_schema spec) names red = Inr R \<Longrightarrow>
     (lookup_schema R name = Inr x \<longleftrightarrow>
        (if name \<in> set names then lookup_schema spec name = Inr x
         else lookup_schema red name = Inr x)) \<and>
     (k \<noteq> ''components'' \<longrightarrow> py_index R k = py_index red k) \<and>
     (k' \<noteq> ''schemas'' \<longrightarrow>
        ebind (py_index R ''components'') (\<lambda>c. py_index c k')
          = ebind (py_index red ''components'') (\<lambda>c. py_index c k')) \<and>
     lookup_path R p v = lookup_path red p v"
proof (induction names arbitrary: red)
  case Nil
  then show ?case by simp
next
  case (Cons a names)
  from Cons.prems obtain red1 where
    c: "copy_schema spec a red = Inr red1"
    and rest: "efold (copy_schema spec) names red1 = Inr R"
    unfolding efold_Cons_Inr by blast
  note ih = Cons.IH[OF rest]
  note st = copy_schema_step[OF c]
  show ?case
    using ih st(1)[of name x] st(3)[of k] st(4)[of k'] st(5)[of p v]
    by auto
qed

lemma reduce_spec_Inr:
  assumes "reduce_spec ord spec all_schemas operations sel = Inr R"
  obtains U T C R1 where
    "select_schemas ord operations sel = Inr U"
    "spec = JObj T" "map_of T ''components'' = Some (JObj C)"
    "copy_operations spec operations sel
       (JObj (AList.update ''components'' (JObj (AList.update ''schemas'' (JObj []) C))
          (AList.update ''paths'' (JObj []) T))) = Inr R1"
    "efold (copy_schema spec) U R1 = Inr R"
    "operations \<noteq> []" "all_schemas \<noteq> []"
proof -
  from assms obtain U where U: "select_schemas ord operations sel = Inr U"
    and rest: "(if length operations = 0 then Inl ZeroDivisionError
       else if length all_schemas = 0 then Inl ZeroDivisionError
       else
         ebind (py_setitem spec ''paths'' (JObj [])) (\<lambda>reduced_spec.
         ebind (py_index reduced_spec ''components'') (\<lambda>reduced_components.
         ebind (py_setitem reduced_components ''schemas'' (JObj [])) (\<lambda>reduced_components.
         ebind (py_setitem reduced_spec ''components'' reduced_components) (\<lambda>reduced_spec.
         ebind (copy_operations spec operations sel reduced_spec) (\<lambda>reduced_spec.
           efold (copy_schema spec) U reduced_spec)))))) = Inr R"
    unfolding reduce_spec_def ebind_eq_Inr[of "select_schemas ord operations sel"] by blast
  from rest have ne: "operations \<noteq> []" "all_schemas \<noteq> []"
    by (auto split: if_splits)
  with rest have "ebind (py_setitem spec ''paths'' (JObj [])) (\<lambda>reduced_spec.
         ebind (py_index reduced_spec ''components'') (\<lambda>reduced_components.
         ebind (py_setitem reduced_components ''schemas'' (JObj [])) (\<lambda>reduced_components.
         ebind (py_setitem reduced_spec ''components'' reduced_components) (\<lambda>reduced_spec.
         ebind (copy_operations spec operations sel reduced_spec) (\<lambda>reduced_spec.
           efold (copy_schema spec) U reduced_spec))))) = Inr R"
    by simp
  then obtain T C R1 where "spec = JObj T"
    "map_of (AList.update ''paths'' (JObj []) T) ''components'' = Some (JObj C)"
    "copy_operations spec operations sel
       (JObj (AList.update ''components'' (JObj (AList.update ''schemas'' (JObj []) C))
          (AList.update ''paths'' (JObj []) T))) = Inr R1"
    "efold (copy_schema spec) U R1 = Inr R"
    unfolding ebind_eq_Inr py_index_Inr py_setitem_Inr by auto
  moreover from this(2) have "map_of T ''components'' = Some (JObj C)"
    by (simp add: update_conv')
  ultimately show ?thesis
    using U ne that by blast
qed

lemma reduce_spec_path:
  assumes "reduce_spec ord spec all_schemas operations sel = Inr R"
  shows "lookup_path R p v = Inr x \<longleftrightarrow> selects operations sel p v \<and> lookup_path spec p v = Inr x"
proof -
  from assms obtain U T C R1 where
    ops: "copy_operations spec operations sel
       (JObj (AList.update ''components'' (JObj (AList.update ''schemas'' (JObj []) C))
          (AList.update ''paths'' (JObj []) T))) = Inr R1"
    and sch: "efold (copy_schema spec) U R1 = Inr R"
    by (rule reduce_spec_Inr)
  have init: "lookup_path (JObj (AList.update ''components'' (JObj (AList.update ''schemas'' (JObj []) C))
          (AList.update ''paths'' (JObj []) T))) p v = Inl (KeyError p)"
    by (simp add: lookup_path_def py_index_JObj update_conv')
  from copy_schemas_fold[OF sch, of _ _ _ _ p v] have "lookup_path R p v = lookup_path R1 p v"
    by blast
  with copy_operations_path[OF ops, of p v x] init show ?thesis
    by simp
qed

lemma reduce_spec_schema:
  assumes "reduce_spec ord spec all_schemas operations sel = Inr R"
    and "select_schemas ord operations sel = Inr U"
  shows "lookup_schema R name = Inr x \<longleftrightarrow> name \<in> set U \<and> lookup_schema spec name = Inr x"
proof -
  from assms(1) obtain U' T C R1 where
    U': "select_schemas ord operations sel = Inr U'"
    and ops: "copy_operations spec operations sel
       (JObj (AList.update ''components'' (JObj (AList.update ''schemas'' (JObj []) C))
          (AList.update ''paths'' (JObj []) T))) = Inr R1"
    and sch: "efold (copy_schema spec) U' R1 = Inr R"
    by (rule reduce_spec_Inr)
  from U' assms(2) have [simp]: "U' = U" by simp
  have init: "lookup_schema (JObj (AList.update ''components'' (JObj (AList.update ''schemas'' (JObj []) C))
          (AList.update ''paths'' (JObj []) T))) name = Inl (KeyError name)"
    by (simp add: lookup_schema_def py_index_JObj update_conv')
  from copy_operations_frame[OF ops, of _ name] init have "lookup_schema R1 name = Inl (KeyError name)"
    by simp
  with copy_schemas_fold[OF sch, of name x] show ?thesis
    by simp
qed

lemma select_schemas_fold:
  "efold (\<lambda>operation_id selected_schemas.
            ebind (catalog_index operations operation_id) (\<lambda>operation.
              Inr (selected_schemas @ schemas operation))) sel acc = Inr U \<Longrightarrow>
     set U = set acc \<union> {name. \<exists>operation_id\<in>set sel. \<exists>operation.
                 catalog_index operations operation_id = Inr operation \<and>
                 name \<in> set (schemas operation)}"
proof (induction sel arbitrary: acc)
  case Nil
  then show ?case by simp
next
  case (Cons a sel)
  from Cons.prems obtain operation where
    op: "catalog_index operations a = Inr operation"
    and rest: "efold (\<lambda>operation_id selected_schemas.
            ebind (catalog_index operations operation_id) (\<lambda>operation.
              Inr (selected_schemas @ schemas operation))) sel (acc @ schemas operation) = Inr U"
    unfolding efold_Cons_Inr ebind_eq_Inr by auto
  from Cons.IH[OF rest] op show ?case
    by auto
qed

lemma select_schemas_set:
  assumes "set_order ord" and "select_schemas ord operations sel = Inr U"
  shows "set U = {name. \<exists>operation_id\<in>set sel. \<exists>operation.
                 catalog_index operations operation_id = Inr operation \<and>
                 name \<in> set (schemas operation)}"
proof -
  from assms(2) obtain U0 where
    f: "efold (\<lambda>operation_id selected_schemas.
            ebind (catalog_index operations operation_id) (\<lambda>operation.
              Inr (selected_schemas @ schemas operation))) sel [] = Inr U0"
    and U: "U = ord U0"
    unfolding select_schemas_def ebind_eq_Inr by auto
  from select_schemas_fold[OF f] U set_order_set[OF assms(1)] show ?thesis
    by simp
qed

text \<open>
  C7. When one selection is included in another and both reductions of a document
  return, the union of the schema sets of the smaller selection is included in that of
  the larger, and so are the entries \<open>(path, verb, operation)\<close> and the schema entries
  of the two reduced documents.
\<close>

theorem reduce_spec_monotone:
  assumes "set_order ord"
    and "set sel \<subseteq> set sel'"
    and "select_schemas ord operations sel = Inr U"
    and "select_schemas ord operations sel' = Inr U'"
    and "reduce_spec ord spec all_schemas operations sel = Inr R"
    and "reduce_spec ord spec all_schemas operations sel' = Inr R'"
  shows "set U \<subseteq> set U' \<and> path_entries R \<subseteq> path_entries R' \<and>
         schema_entries R \<subseteq> schema_entries R'"
proof (intro conjI)
  show U: "set U \<subseteq> set U'"
    unfolding select_schemas_set[OF assms(1,3)] select_schemas_set[OF assms(1,4)]
    using assms(2) by blast
  have "selects operations sel p v \<Longrightarrow> selects operations sel' p v" for p v
    using assms(2) unfolding selects_def by blast
  then show "path_entries R \<subseteq> path_entries R'"
    unfolding path_entries_def reduce_spec_path[OF assms(5)] reduce_spec_path[OF assms(6)]
    by blast
  show "schema_entries R \<subseteq> schema_entries R'"
    unfolding schema_entries_def reduce_spec_schema[OF assms(5,3)] reduce_spec_schema[OF assms(6,4)]
    using U by blast
qed

lemma load_doc_pets:
  "load_api_spec remdups doc_pets
     = Inr (doc_pets, pets_index, pets_catalog, [(JStr ''No tag'', [op_get_pet, op_add_pet])])"
  by code_simp

lemma reduce_doc_pets_add:
  "reduce_spec remdups doc_pets pets_index pets_catalog [''addPet''] = Inr doc_pets_add"
  by code_simp

lemma reduce_doc_pets_all:
  "reduce_spec remdups doc_pets pets_index pets_catalog [''getPet'', ''addPet''] = Inr doc_pets_all"
  by code_simp

lemma select_doc_pets_add: "select_schemas remdups pets_catalog [''addPet''] = Inr []"
  by code_simp

lemma select_doc_pets_all:
  "select_schemas remdups pets_catalog [''getPet'', ''addPet''] = Inr [''Pet'', ''Tag'']"
  by code_simp

theorem reduce_spec_monotone_witness:
  "set ([] :: string list) \<subseteq> set [''Pet'', ''Tag''] \<and>
   path_entries doc_pets_add \<subseteq> path_entries doc_pets_all \<and>
   schema_entries doc_pets_add \<subseteq> schema_entries doc_pets_all"
proof -
  have sub: "set [''addPet''] \<subseteq> set [''getPet'', ''addPet'']"
    by simp
  show ?thesis
    by (rule reduce_spec_monotone[OF set_order_remdups sub select_doc_pets_add select_doc_pets_all
          reduce_doc_pets_add reduce_doc_pets_all])
qed



section \<open>Selecting every operation\<close>

lemma parse_operation_fields:
  assumes "parse_operation ord p all_schemas v op = Inr operation"
  shows "extracted (p, v, op) operation"
proof -
  from assms obtain d where "op = JObj d"
    by (cases op) (auto simp: parse_operation_def py_get_def)
  with assms show ?thesis
    by (auto simp: parse_operation_def ebind_eq_Inr py_get_def extracted_def declared_id_def)
qed

lemma parse_path_loop:
  "efold (\<lambda>(v, op) result.
            ebind (parse_operation ord p all_schemas v op) (\<lambda>operation. Inr (result @ [operation])))
     items acc = Inr r \<Longrightarrow>
   \<exists>r'. r = acc @ r' \<and> list_all2 extracted (map (\<lambda>item. (p, fst item, snd item)) items) r'"
proof (induction items arbitrary: acc)
  case Nil
  then show ?case by simp
next
  case (Cons a items)
  obtain v op where a: "a = (v, op)" by (cases a)
  from Cons.prems a obtain operation where
    o: "parse_operation ord p all_schemas v op = Inr operation"
    and rest: "efold (\<lambda>(v, op) result.
            ebind (parse_operation ord p all_schemas v op) (\<lambda>operation. Inr (result @ [operation])))
          items (acc @ [operation]) = Inr r"
    unfolding efold_Cons_Inr by (auto simp: ebind_eq_Inr)
  from Cons.IH[OF rest] obtain r' where r': "r = (acc @ [operation]) @ r'"
    and l: "list_all2 extracted (map (\<lambda>item. (p, fst item, snd item)) items) r'"
    by blast
  from parse_operation_fields[OF o] l a have
    "list_all2 extracted (map (\<lambda>item. (p, fst item, snd item)) (a # items)) (operation # r')"
    by simp
  with r' show ?case by auto
qed

lemma parse_path_extracted:
  assumes "parse_path ord p path_item all_schemas = Inr r"
  shows "list_all2 extracted (path_operations (p, path_item)) r"
proof -
  from assms obtain items where items: "path_item = JObj items"
    and f: "efold (\<lambda>(v, op) result.
            ebind (parse_operation ord p all_schemas v op) (\<lambda>operation. Inr (result @ [operation])))
          items [] = Inr r"
    unfolding parse_path_def ebind_eq_Inr
    by (cases path_item) (auto simp: py_items_def)
  from parse_path_loop[OF f] items show ?thesis
    by (simp add: path_operations_def)
qed

lemma load_paths_loop:
  "efold (\<lambda>(p, path_item) operations_list.
            ebind (parse_path ord p path_item all_schemas) (\<lambda>r. Inr (operations_list @ r)))
     path_items acc = Inr ol \<Longrightarrow>
   \<exists>r'. ol = acc @ r' \<and> list_all2 extracted (concat (map path_operations path_items)) r'"
proof (induction path_items arbitrary: acc)
  case Nil
  then show ?case by simp
next
  case (Cons a path_items)
  obtain p path_item where a: "a = (p, path_item)" by (cases a)
  from Cons.prems a obtain r where
    o: "parse_path ord p path_item all_schemas = Inr r"
    and rest: "efold (\<lambda>(p, path_item) operations_list.
            ebind (parse_path ord p path_item all_schemas) (\<lambda>r. Inr (operations_list @ r)))
          path_items (acc @ r) = Inr ol"
    unfolding efold_Cons_Inr by (auto simp: ebind_eq_Inr)
  from Cons.IH[OF rest] obtain r' where r': "ol = (acc @ r) @ r'"
    and l: "list_all2 extracted (concat (map path_operations path_items)) r'"
    by blast
  from parse_path_extracted[OF o] l a have
    "list_all2 extracted (concat (map path_operations (a # path_items))) (r @ r')"
    by (simp add: list_all2_appendI)
  with r' show ?case by auto
qed

lemma load_api_spec_Inr:
  assumes "load_api_spec ord doc = Inr (spec, all_schemas, operations, groups)"
  obtains operations_list where
    "spec = doc"
    "list_all2 extracted (document_operations doc) operations_list"
    "build_catalog operations_list = Inr operations"
proof -
  from assms obtain path_items operations_list where
    spec: "spec = doc"
    and p: "py_index doc ''paths'' = Inr (JObj path_items)"
    and f: "efold (\<lambda>(p, path_operations) operations_list.
                          ebind (parse_path ord p path_operations all_schemas)
                            (\<lambda>r. Inr (operations_list @ r)))
                   path_items [] = Inr operations_list"
    and b: "build_catalog operations_list = Inr operations"
    unfolding load_api_spec_def
    by (auto simp: ebind_eq_Inr Let_def py_items_def split: sum.splits if_splits json.splits)
  from load_paths_loop[OF f] p have "list_all2 extracted (document_operations doc) operations_list"
    by (simp add: document_operations_def)
  with spec b that show ?thesis by blast
qed

lemma lookup_path_document_operations:
  assumes "lookup_path doc p v = Inr x"
  shows "(p, v, x) \<in> set (document_operations doc)"
proof -
  from assms obtain T path_items items where
    "doc = JObj T" "map_of T ''paths'' = Some (JObj path_items)"
    and pi: "map_of path_items p = Some (JObj items)" and it: "map_of items v = Some x"
    unfolding lookup_path_def ebind_eq_Inr py_index_Inr by auto
  then have d: "document_operations doc = concat (map path_operations path_items)"
    by (simp add: document_operations_def py_index_JObj)
  from pi have "(p, JObj items) \<in> set path_items"
    by (rule map_of_SomeD)
  moreover from it have "(v, x) \<in> set items"
    by (rule map_of_SomeD)
  then have "(p, v, x) \<in> set (path_operations (p, JObj items))"
    by (force simp: path_operations_def)
  ultimately show ?thesis
    unfolding d by auto
qed

lemma find_distinct:
  "distinct (map f xs) \<Longrightarrow> x \<in> set xs \<Longrightarrow> find (\<lambda>y. f y = f x) xs = Some x"
  by (induction xs) (auto simp: image_iff)

lemma build_catalog_hashable:
  "efold (\<lambda>op d. if hashable (op_id op) then Inr (AList.update (op_id op) op d)
                    else Inl (TypeError ''unhashable type'')) ops d0 = Inr c \<Longrightarrow>
     \<forall>op\<in>set ops. hashable (op_id op)"
proof (induction ops arbitrary: d0)
  case Nil
  show ?case by simp
next
  case (Cons a ops)
  from Cons.prems obtain d1 where
    a: "(if hashable (op_id a) then Inr (AList.update (op_id a) a d0)
         else Inl (TypeError ''unhashable type'')) = Inr d1"
    and rest: "efold (\<lambda>op d. if hashable (op_id op) then Inr (AList.update (op_id op) op d)
                    else Inl (TypeError ''unhashable type'')) ops d1 = Inr c"
    unfolding efold_Cons_Inr by blast
  from a have "hashable (op_id a)"
    by (simp split: if_splits)
  with Cons.IH[OF rest] show ?case by simp
qed

lemma list_all2_set1: "list_all2 P xs ys \<Longrightarrow> x \<in> set xs \<Longrightarrow> \<exists>y\<in>set ys. P x y"
  by (induction rule: list_all2_induct) auto

lemma build_catalog_distinct:
  assumes "build_catalog operations_list = Inr operations"
    and "distinct (map op_id operations_list)"
    and "operation \<in> set operations_list"
  shows "map_of operations (op_id operation) = Some operation"
proof -
  have h: "\<forall>op\<in>set operations_list. hashable (op_id op)"
    using assms(1) unfolding build_catalog_def by (rule build_catalog_hashable)
  from build_catalog_fold[OF h] assms(1)
  have "operations = fold (\<lambda>op d. AList.update (op_id op) op d) operations_list []"
    by (simp add: build_catalog_def)
  then have "map_of operations (op_id operation)
               = find (\<lambda>op. op_id op = op_id operation) (rev operations_list)"
    by (simp add: map_of_fold_update split: option.splits)
  also have "\<dots> = Some operation"
    by (rule find_distinct) (use assms(2,3) in \<open>simp_all add: rev_map[symmetric]\<close>)
  finally show ?thesis .
qed

lemma set_all_operation_ids:
  "set (all_operation_ids operations) = {s. JStr s \<in> fst ` set operations}"
  by (induction operations rule: all_operation_ids.induct) auto

lemma list_all2_extracted_ids:
  "list_all2 extracted entries operations_list \<Longrightarrow>
     map op_id operations_list = map (\<lambda>(p, v, op). declared_id op) entries"
  by (induction rule: list_all2_induct) (auto simp: extracted_def)

text \<open>
  C1. Let a document be loaded and reduced with the selection of every identifier of
  its catalog. The schemas of the reduced document are the entries of the document for
  the names in the schema sets of the selected operations, and no others: a schema that
  no operation reaches is missing. The entries \<open>(path, verb, operation)\<close> of the reduced
  document are entries of the document, and they are all of them when the operations of
  the document declare pairwise distinct identifiers that are strings.
\<close>

theorem reduce_all_operations:
  assumes "set_order ord"
    and "load_api_spec ord doc = Inr (spec, all_schemas, operations, groups)"
    and "reduce_spec ord spec all_schemas operations (all_operation_ids operations) = Inr R"
  shows "(\<forall>name x. lookup_schema R name = Inr x \<longleftrightarrow>
            (\<exists>s operation. map_of operations (JStr s) = Some operation \<and>
                name \<in> set (schemas operation)) \<and> lookup_schema doc name = Inr x) \<and>
         schema_entries R \<subseteq> schema_entries doc \<and>
         path_entries R \<subseteq> path_entries doc \<and>
         (distinct (operation_ids doc) \<and> (\<forall>i\<in>set (operation_ids doc). \<exists>s. i = JStr s)
            \<longrightarrow> path_entries R = path_entries doc)"
proof -
  from assms(2) obtain operations_list where
    spec: "spec = doc"
    and ex: "list_all2 extracted (document_operations doc) operations_list"
    and cat: "build_catalog operations_list = Inr operations"
    by (rule load_api_spec_Inr)
  from assms(3) obtain U where U: "select_schemas ord operations (all_operation_ids operations) = Inr U"
    by (rule reduce_spec_Inr)
  have index: "catalog_index operations s = Inr operation \<longleftrightarrow> map_of operations (JStr s) = Some operation"
    for s operation
    by (auto simp: catalog_index_def split: option.splits)
  have sel: "s \<in> set (all_operation_ids operations)" if "map_of operations (JStr s) = Some operation"
    for s operation
    using that by (auto simp: set_all_operation_ids dest: map_of_keys)
  have setU: "name \<in> set U \<longleftrightarrow>
      (\<exists>s operation. map_of operations (JStr s) = Some operation \<and> name \<in> set (schemas operation))"
    for name
    unfolding select_schemas_set[OF assms(1) U] index using sel by blast
  have schema: "lookup_schema R name = Inr x \<longleftrightarrow>
            (\<exists>s operation. map_of operations (JStr s) = Some operation \<and>
                name \<in> set (schemas operation)) \<and> lookup_schema doc name = Inr x" for name x
    unfolding reduce_spec_schema[OF assms(3) U] setU spec ..
  have path: "lookup_path R p v = Inr x \<longleftrightarrow>
      selects operations (all_operation_ids operations) p v \<and> lookup_path doc p v = Inr x" for p v x
    unfolding reduce_spec_path[OF assms(3)] spec ..
  have all: "selects operations (all_operation_ids operations) p v"
    if d: "distinct (operation_ids doc)" and str: "\<forall>i\<in>set (operation_ids doc). \<exists>s. i = JStr s"
      and l: "lookup_path doc p v = Inr x" for p v x
  proof -
    have ids: "map op_id operations_list = operation_ids doc"
      unfolding operation_ids_def by (rule list_all2_extracted_ids[OF ex])
    from list_all2_set1[OF ex lookup_path_document_operations[OF l]] obtain operation where
      mem: "operation \<in> set operations_list" and e: "extracted (p, v, x) operation"
      by blast
    from mem ids str obtain s where s: "op_id operation = JStr s"
      by (metis image_eqI set_map)
    from build_catalog_distinct[OF cat _ mem] d ids
    have "map_of operations (op_id operation) = Some operation"
      by simp
    with s have m: "map_of operations (JStr s) = Some operation"
      by simp
    with e sel[OF m] show ?thesis
      unfolding selects_def index by (auto simp: extracted_def)
  qed
  show ?thesis
  proof (intro conjI allI impI)
    show "lookup_schema R name = Inr x \<longleftrightarrow>
            (\<exists>s operation. map_of operations (JStr s) = Some operation \<and>
                name \<in> set (schemas operation)) \<and> lookup_schema doc name = Inr x" for name x
      by (rule schema)
    show "schema_entries R \<subseteq> schema_entries doc"
      unfolding schema_entries_def using schema by blast
    show "path_entries R \<subseteq> path_entries doc"
      unfolding path_entries_def using path by blast
    assume "distinct (operation_ids doc) \<and> (\<forall>i\<in>set (operation_ids doc). \<exists>s. i = JStr s)"
    with all path show "path_entries R = path_entries doc"
      unfolding path_entries_def by blast
  qed
qed

theorem reduce_all_operations_witness:
  "schema_entries doc_pets_all \<subseteq> schema_entries doc_pets \<and>
   path_entries doc_pets_all = path_entries doc_pets"
proof -
  have ids: "all_operation_ids pets_catalog = [''getPet'', ''addPet'']"
    by code_simp
  have red: "reduce_spec remdups doc_pets pets_index pets_catalog (all_operation_ids pets_catalog)
               = Inr doc_pets_all"
    unfolding ids by (rule reduce_doc_pets_all)
  have "operation_ids doc_pets = [JStr ''getPet'', JStr ''addPet'']"
    by code_simp
  then have d: "distinct (operation_ids doc_pets) \<and>
                (\<forall>i\<in>set (operation_ids doc_pets). \<exists>s. i = JStr s)"
    by simp
  note t = reduce_all_operations[OF set_order_remdups load_doc_pets red]
  from t[THEN conjunct2, THEN conjunct1]
       t[THEN conjunct2, THEN conjunct2, THEN conjunct2, THEN mp, OF d]
  show ?thesis by (rule conjI)
qed

text \<open>
  The document \<open>doc_pets\<close> has a schema \<open>Unused\<close> that no operation refers to. With
  both operations selected the reduced document has no such schema.
\<close>

theorem reduce_all_drops_unused_schema_counterexample:
  "load_api_spec remdups doc_pets
     = Inr (doc_pets, pets_index, pets_catalog, [(JStr ''No tag'', [op_get_pet, op_add_pet])]) \<and>
   all_operation_ids pets_catalog = [''getPet'', ''addPet''] \<and>
   reduce_spec remdups doc_pets pets_index pets_catalog [''getPet'', ''addPet''] = Inr doc_pets_all \<and>
   lookup_schema doc_pets ''Unused'' = Inr (JObj [(''type'', JStr ''integer'')]) \<and>
   lookup_schema doc_pets_all ''Unused'' = Inl (KeyError ''Unused'')"
  by code_simp


end
